theory Spec2Isabelle
  imports Main "HOL-Library.Multiset"
begin

section \<open>Data model\<close>

text \<open>
  Time is counted in milliseconds on the event loop's clock, as a natural number:
  \<^verbatim>\<open>asyncio.sleep(0.1)\<close> is 100 units, \<^verbatim>\<open>0.05\<close> is 50. Timers are exact: a
  coroutine that sleeps \<open>d\<close> from time \<open>t\<close> resumes at \<open>t + d\<close>.
\<close>

text \<open>What \<^verbatim>\<open>fetch_url\<close> reads of an \<^verbatim>\<open>httpx.Response\<close>.\<close>

record response =
  status_code :: int
  response_text :: string

text \<open>
  How one \<^verbatim>\<open>await client.get(url, timeout=10.0)\<close> settles: it returns a response, or
  it raises an exception of class \<^verbatim>\<open>Exception\<close> (every httpx error is one), of which
  \<^verbatim>\<open>fetch_url\<close> only uses \<^verbatim>\<open>str(e)\<close>. A response of any status code is a response:
  the source does not call \<^verbatim>\<open>raise_for_status\<close>. An await can also end with an exception
  outside class \<^verbatim>\<open>Exception\<close> (\<^verbatim>\<open>asyncio.CancelledError\<close> when the task is cancelled,
  \<^verbatim>\<open>KeyboardInterrupt\<close>, \<^verbatim>\<open>SystemExit\<close>); that is the subject of the section on awaits
  that escape, and \<open>get_result\<close> is how a request settles when it does not.
\<close>

datatype get_result = Returns response | Raises string

text \<open>
  The client is the external collaborator: for a URL and the time at which the request is
  issued it gives the time the request takes and how it settles.
\<close>

type_synonym client = "string \<Rightarrow> nat \<Rightarrow> nat \<times> get_result"

text \<open>The values stored in the result dict, and the dict in insertion order.\<close>

datatype py_value = PyNone | PyBool bool | PyInt int | PyStr string

type_synonym py_dict = "(string \<times> py_value) list"

text \<open>
  What a generator can raise to its consumer: the \<^verbatim>\<open>ValueError\<close> of \<^verbatim>\<open>range\<close>, or an
  exception outside class \<^verbatim>\<open>Exception\<close> that came out of an awaited operation, by name.
\<close>

datatype py_error = ValueError string | BaseException string

section \<open>The executor: \<^verbatim>\<open>fetch_url\<close>\<close>

text \<open>
  \<^verbatim>\<open>fetch_url(client, url, delay)\<close> started at time \<open>t0\<close>: the time at which it
  returns, and the dict it returns. The \<^verbatim>\<open>try\<close> body is the \<open>Returns\<close> branch, the
  \<^verbatim>\<open>except Exception as e\<close> handler the \<open>Raises\<close> branch.
\<close>

definition fetch_url :: "client \<Rightarrow> string \<Rightarrow> nat \<Rightarrow> nat \<Rightarrow> nat \<times> py_dict" where
  "fetch_url client url delay t0 =
     (let t1 = (if delay \<noteq> 0 then t0 + delay else t0)
      in case client url t1 of
           (d, Returns resp) \<Rightarrow>
             (t1 + d,
              [(''url'', PyStr url),
               (''status'', PyInt (status_code resp)),
               (''length'', PyInt (int (length (response_text resp)))),
               (''success'', PyBool True)])
         | (d, Raises e) \<Rightarrow>
             (t1 + d,
              [(''url'', PyStr url),
               (''status'', PyNone),
               (''length'', PyInt 0),
               (''success'', PyBool False),
               (''error'', PyStr e)]))"

section \<open>The event loop\<close>

text \<open>
  An operation scheduled on the loop: the position of its item in the input (kept to tell
  items apart), the time it was started, the time it settles and its result.
\<close>

record 'a task =
  tid :: nat
  started :: nat
  finished :: nat
  result :: 'a

text \<open>
  What a generator does, in order: it starts an operation, it hands a result to the
  consumer (at the given time), or it ends by raising.
\<close>

datatype 'a event = Launch "'a task" | Yield nat "'a task" | Raised py_error

primrec launches :: "'a event list \<Rightarrow> 'a task list" where
  "launches [] = []"
| "launches (e # es) = (case e of Launch t \<Rightarrow> t # launches es | _ \<Rightarrow> launches es)"

primrec yields :: "'a event list \<Rightarrow> 'a task list" where
  "yields [] = []"
| "yields (e # es) = (case e of Yield _ t \<Rightarrow> t # yields es | _ \<Rightarrow> yields es)"

primrec raised :: "'a event list \<Rightarrow> py_error list" where
  "raised [] = []"
| "raised (e # es) = (case e of Raised x \<Rightarrow> x # raised es | _ \<Rightarrow> raised es)"

text \<open>The operations in flight at instant \<open>t\<close>: started, not yet settled.\<close>

definition in_flight :: "'a task list \<Rightarrow> nat \<Rightarrow> 'a task list" where
  "in_flight ts t = filter (\<lambda>k. started k \<le> t \<and> t < finished k) ts"

text \<open>
  \<^verbatim>\<open>asyncio.as_completed(tasks)\<close> schedules all the tasks and hands them out as they
  settle: each \<^verbatim>\<open>await\<close> gets the task that settles first among those not handed out
  yet. Among tasks settling at the same instant asyncio fixes no order; the model takes
  the first in the list, and no property below depends on that choice of order.
\<close>

fun earliest :: "'a task \<Rightarrow> 'a task list \<Rightarrow> 'a task" where
  "earliest t [] = t"
| "earliest t (u # us) = (if finished u < finished t then earliest u us else earliest t us)"

function as_completed :: "'a task list \<Rightarrow> 'a task list" where
  "as_completed [] = []"
| "as_completed (t # ts) =
     earliest t ts # as_completed (remove1 (earliest t ts) (t # ts))"
  by pat_completeness auto
termination
proof (relation "measure length")
  fix t :: "'a task" and ts
  have "earliest u us \<in> set (u # us)" for u :: "'a task" and us
    by (induction us arbitrary: u) auto
  then have "length (remove1 (earliest t ts) (t # ts)) = length (t # ts) - 1"
    by (simp only: length_remove1 if_True)
  then show "(remove1 (earliest t ts) (t # ts), t # ts) \<in> measure length" by simp
qed simp

text \<open>
  The loop \<^verbatim>\<open>for task in asyncio.as_completed(tasks): result = await task; yield result\<close>,
  entered at time \<open>now\<close>: awaiting a task moves the clock to the time it settles, if that
  is later.
\<close>

fun drain :: "nat \<Rightarrow> 'a task list \<Rightarrow> 'a event list" where
  "drain now [] = []"
| "drain now (t # ts) = Yield (max now (finished t)) t # drain (max now (finished t)) ts"

fun clock_after :: "nat \<Rightarrow> 'a task list \<Rightarrow> nat" where
  "clock_after now [] = now"
| "clock_after now (t # ts) = clock_after (max now (finished t)) ts"

section \<open>The generators of \<^verbatim>\<open>integrated_async_demo.py\<close>\<close>

text \<open>The coroutine \<^verbatim>\<open>fetch_url(client, url, delay)\<close> of item \<open>i\<close>, started at \<open>now\<close>.\<close>

definition spawn :: "client \<Rightarrow> nat \<Rightarrow> nat \<Rightarrow> nat \<times> string \<Rightarrow> py_dict task" where
  "spawn client delay now iu =
     \<lparr>tid = fst iu, started = now,
      finished = fst (fetch_url client (snd iu) delay now),
      result = snd (fetch_url client (snd iu) delay now)\<rparr>"

text \<open>
  Each generator is given with the time \<open>t0\<close> of the consumer's first pull; the consumer
  pulls again as soon as it has a result.
\<close>

fun sequential_loop :: "client \<Rightarrow> (nat \<times> string) list \<Rightarrow> nat \<Rightarrow> py_dict event list" where
  "sequential_loop client [] now = []"
| "sequential_loop client (iu # rest) now =
     (let k = spawn client (100 * (fst iu mod 3)) now iu
      in Launch k # Yield (finished k) k # sequential_loop client rest (finished k))"

definition sequential_http_gen :: "client \<Rightarrow> string list \<Rightarrow> nat \<Rightarrow> py_dict event list" where
  "sequential_http_gen client urls t0 = sequential_loop client (enumerate 0 urls) t0"

definition concurrent_http_gen :: "client \<Rightarrow> string list \<Rightarrow> nat \<Rightarrow> py_dict event list" where
  "concurrent_http_gen client urls t0 =
     (let tasks = map (\<lambda>iu. spawn client (100 * (fst iu mod 3)) t0 iu) (enumerate 0 urls)
      in map Launch tasks @ drain t0 (as_completed tasks))"

text \<open>
  The body of \<^verbatim>\<open>for i in range(0, len(urls), batch_size)\<close> for a positive step \<open>B\<close>,
  from index \<open>i\<close> on: the tasks of the slice \<^verbatim>\<open>urls[i : i + batch_size]\<close>, each
  \<^verbatim>\<open>fetch_url(client, url, 0.05)\<close>, are started as a whole and drained before the next
  index is taken.
\<close>

definition batch_tasks :: "client \<Rightarrow> string list \<Rightarrow> nat \<Rightarrow> nat \<Rightarrow> nat \<Rightarrow> py_dict task list" where
  "batch_tasks client urls B i now =
     map (spawn client 50 now) (enumerate i (take B (drop i urls)))"

function batch_loop :: "client \<Rightarrow> string list \<Rightarrow> nat \<Rightarrow> nat \<Rightarrow> nat \<Rightarrow> py_dict event list" where
  "batch_loop client urls B i now =
     (if B = 0 \<or> length urls \<le> i then []
      else map Launch (batch_tasks client urls B i now)
         @ drain now (as_completed (batch_tasks client urls B i now))
         @ batch_loop client urls B (i + B)
             (clock_after now (as_completed (batch_tasks client urls B i now))))"
  by pat_completeness auto
termination
  by (relation "measure (\<lambda>(client, urls, B, i, now). length urls - i)") auto

declare batch_loop.simps [simp del]

text \<open>
  \<^verbatim>\<open>range(0, len(urls), batch_size)\<close> raises \<^verbatim>\<open>ValueError\<close> for a step of 0 and is empty
  for a negative step, since \<open>0 \<le> len(urls)\<close>.
\<close>

definition batch_http_gen :: "client \<Rightarrow> string list \<Rightarrow> int \<Rightarrow> nat \<Rightarrow> py_dict event list" where
  "batch_http_gen client urls batch_size t0 =
     (if batch_size = 0 then [Raised (ValueError ''range() arg 3 must not be zero'')]
      else if batch_size < 0 then []
      else batch_loop client urls (nat batch_size) 0 t0)"

section \<open>The generators of \<^verbatim>\<open>async generator.py\<close>\<close>

text \<open>\<^verbatim>\<open>str(i)\<close> for a non-negative integer, as the f-string formats it.\<close>

function str_nat :: "nat \<Rightarrow> string" where
  "str_nat n =
     (if n < 10 then [''0123456789'' ! n]
      else str_nat (n div 10) @ [''0123456789'' ! (n mod 10)])"
  by pat_completeness auto
termination
  by (relation "measure id") auto

declare str_nat.simps [simp del]

text \<open>\<^verbatim>\<open>slow_task(i)\<close> started at \<open>now\<close>: it sleeps 0.1 s and returns its message.\<close>

definition slow_task :: "nat \<Rightarrow> nat \<Rightarrow> string task" where
  "slow_task now i =
     \<lparr>tid = i, started = now, finished = now + 100,
      result = ''Task '' @ str_nat i @ '' done''\<rparr>"

fun sequential_gen_loop :: "nat list \<Rightarrow> nat \<Rightarrow> string event list" where
  "sequential_gen_loop [] now = []"
| "sequential_gen_loop (i # rest) now =
     (let k = slow_task now i
      in Launch k # Yield (finished k) k # sequential_gen_loop rest (finished k))"

text \<open>\<^verbatim>\<open>range(n)\<close> is empty for a negative \<open>n\<close>.\<close>

definition sequential_gen :: "int \<Rightarrow> nat \<Rightarrow> string event list" where
  "sequential_gen n t0 = sequential_gen_loop [0..<nat n] t0"

definition concurrent_gen :: "int \<Rightarrow> nat \<Rightarrow> string event list" where
  "concurrent_gen n t0 =
     (let tasks = map (slow_task t0) [0..<nat n]
      in map Launch tasks @ drain t0 (as_completed tasks))"

section \<open>A consumer that stops pulling\<close>

text \<open>
  A generator runs only while the consumer pulls: it is suspended at each \<^verbatim>\<open>yield\<close>.
  A consumer that takes \<open>k\<close> results and then abandons the generator has made it run up
  to its \<open>k\<close>-th \<^verbatim>\<open>yield\<close> and no further; closing it raises \<^verbatim>\<open>GeneratorExit\<close> at
  that \<^verbatim>\<open>yield\<close>, which no generator of the source encloses in a \<^verbatim>\<open>try\<close>.
\<close>

fun abandon_after :: "nat \<Rightarrow> 'a event list \<Rightarrow> 'a event list" where
  "abandon_after 0 es = []"
| "abandon_after (Suc k) [] = []"
| "abandon_after (Suc k) (Yield t x # es) = Yield t x # abandon_after k es"
| "abandon_after (Suc k) (e # es) = e # abandon_after (Suc k) es"

text \<open>The time of the last \<^verbatim>\<open>yield\<close> of a run that started at \<open>t0\<close>.\<close>

fun last_yield_time :: "nat \<Rightarrow> 'a event list \<Rightarrow> nat" where
  "last_yield_time t0 [] = t0"
| "last_yield_time t0 (Yield t x # es) = last_yield_time t es"
| "last_yield_time t0 (e # es) = last_yield_time t0 es"

text \<open>The position of the first occurrence of \<open>x\<close> in a list that contains it.\<close>

fun index_of :: "'a \<Rightarrow> 'a list \<Rightarrow> nat" where
  "index_of x [] = 0"
| "index_of x (y # ys) = (if x = y then 0 else Suc (index_of x ys))"

text \<open>
  The batch an event belongs to, for a batch size \<open>B\<close>: the slice
  \<^verbatim>\<open>urls[k * B : k * B + B]\<close> holds the items at the positions \<open>p\<close> with \<open>p div B = k\<close>.
\<close>

fun batch_of :: "nat \<Rightarrow> 'a event \<Rightarrow> nat" where
  "batch_of B (Launch t) = tid t div B"
| "batch_of B (Yield c t) = tid t div B"
| "batch_of B (Raised x) = 0"

section \<open>Awaits that escape\<close>

text \<open>
  How an \<^verbatim>\<open>await\<close> ends: with its result (for a request, a response or an exception of
  class \<^verbatim>\<open>Exception\<close>), or with an exception outside class \<^verbatim>\<open>Exception\<close>, given by its
  name, which \<^verbatim>\<open>except Exception\<close> does not catch.
\<close>

datatype 'a awaited = Done 'a | Escaped string

text \<open>
  The two awaits of \<^verbatim>\<open>fetch_url\<close>: \<^verbatim>\<open>asyncio.sleep(delay)\<close> started at a given time
  (the time it ends and how), and \<^verbatim>\<open>client.get(url, timeout=10.0)\<close> issued at a given time
  (the time it takes and how it ends).
\<close>

record runtime =
  sleep :: "nat \<Rightarrow> nat \<Rightarrow> nat \<times> unit awaited"
  get :: "string \<Rightarrow> nat \<Rightarrow> nat \<times> get_result awaited"

text \<open>\<^verbatim>\<open>if delay: await asyncio.sleep(delay)\<close>, entered at \<open>t0\<close>.\<close>

definition maybe_sleep :: "runtime \<Rightarrow> nat \<Rightarrow> nat \<Rightarrow> nat \<times> unit awaited" where
  "maybe_sleep rt delay t0 = (if delay \<noteq> 0 then sleep rt delay t0 else (t0, Done ()))"

text \<open>
  \<^verbatim>\<open>fetch_url\<close> with both awaits as they can end. The sleep stands before the \<^verbatim>\<open>try\<close>:
  whatever it raises leaves \<^verbatim>\<open>fetch_url\<close>. The request stands inside it: the handler
  turns an exception of class \<^verbatim>\<open>Exception\<close> into the failure dict and lets any other
  through. The result is the time at which \<^verbatim>\<open>fetch_url\<close> ends, and the name of the
  exception that left it (\<open>Inl\<close>) or the dict it returned (\<open>Inr\<close>).
\<close>

definition fetch_url_full :: "runtime \<Rightarrow> string \<Rightarrow> nat \<Rightarrow> nat \<Rightarrow> nat \<times> (string + py_dict)" where
  "fetch_url_full rt url delay t0 =
     (case maybe_sleep rt delay t0 of
        (t1, Escaped x) \<Rightarrow> (t1, Inl x)
      | (t1, Done u) \<Rightarrow>
          (case get rt url t1 of
             (d, Escaped x) \<Rightarrow> (t1 + d, Inl x)
           | (d, Done (Returns resp)) \<Rightarrow>
               (t1 + d,
                Inr [(''url'', PyStr url),
                     (''status'', PyInt (status_code resp)),
                     (''length'', PyInt (int (length (response_text resp)))),
                     (''success'', PyBool True)])
           | (d, Done (Raises e)) \<Rightarrow>
               (t1 + d,
                Inr [(''url'', PyStr url),
                     (''status'', PyNone),
                     (''length'', PyInt 0),
                     (''success'', PyBool False),
                     (''error'', PyStr e)])))"

text \<open>
  The runtime in which no await escapes and timers are exact, for a given client: under
  it \<open>fetch_url_full\<close> is \<open>fetch_url\<close>.
\<close>

definition exact_runtime :: "client \<Rightarrow> runtime" where
  "exact_runtime client =
     \<lparr>sleep = (\<lambda>delay t. (t + delay, Done ())),
      get = (\<lambda>url t. (fst (client url t), Done (snd (client url t))))\<rparr>"

text \<open>
  The loop over \<^verbatim>\<open>asyncio.as_completed(tasks)\<close> when a task may have ended with an
  exception: \<^verbatim>\<open>await task\<close> raises it again in the generator, which has no handler, so
  the consumer gets it and the generator is over.
\<close>

fun drain_full :: "nat \<Rightarrow> (string + 'a) task list \<Rightarrow> (string + 'a) event list" where
  "drain_full now [] = []"
| "drain_full now (t # ts) =
     (case result t of
        Inl x \<Rightarrow> [Raised (BaseException x)]
      | Inr v \<Rightarrow> Yield (max now (finished t)) t # drain_full (max now (finished t)) ts)"

definition spawn_full :: "runtime \<Rightarrow> nat \<Rightarrow> nat \<Rightarrow> nat \<times> string \<Rightarrow> (string + py_dict) task" where
  "spawn_full rt delay now iu =
     \<lparr>tid = fst iu, started = now,
      finished = fst (fetch_url_full rt (snd iu) delay now),
      result = snd (fetch_url_full rt (snd iu) delay now)\<rparr>"

definition concurrent_http_gen_full ::
    "runtime \<Rightarrow> string list \<Rightarrow> nat \<Rightarrow> (string + py_dict) event list" where
  "concurrent_http_gen_full rt urls t0 =
     (let tasks = map (\<lambda>iu. spawn_full rt (100 * (fst iu mod 3)) t0 iu) (enumerate 0 urls)
      in map Launch tasks @ drain_full t0 (as_completed tasks))"

section \<open>Example inputs\<close>

definition example_response :: response where
  "example_response = \<lparr>status_code = 200, response_text = ''ok''\<rparr>"

text \<open>
  A client whose request for \<open>A\<close> takes 300 ms, whose request for \<open>B\<close> fails at once
  and whose other requests succeed at once.
\<close>

definition example_client :: client where
  "example_client url t =
     (if url = ''A'' then (300, Returns example_response)
      else if url = ''B'' then (0, Raises ''boom'')
      else (0, Returns example_response))"

text \<open>A client whose every request is answered at once with status 500.\<close>

definition error_status_client :: client where
  "error_status_client url t = (0, Returns \<lparr>status_code = 500, response_text = ''oops''\<rparr>)"

text \<open>
  A runtime in which the task of a request for \<open>B\<close> is cancelled 20 ms into the request,
  and a sleep of 200 ms is cancelled after 50 ms; everything else ends normally at once.
\<close>

definition cancelling_runtime :: runtime where
  "cancelling_runtime =
     \<lparr>sleep = (\<lambda>delay t. if delay = 200 then (t + 50, Escaped ''CancelledError'')
                         else (t + delay, Done ())),
      get = (\<lambda>url t. if url = ''B'' then (20, Escaped ''CancelledError'')
                      else (0, Done (Returns example_response)))\<rparr>"

section \<open>Properties of the event loop\<close>

lemma earliest_in: "earliest t ts \<in> set (t # ts)"
  by (induction ts arbitrary: t) auto

lemma earliest_le_head: "finished (earliest t ts) \<le> finished t"
proof (induction ts arbitrary: t)
  case Nil
  show ?case by simp
next
  case (Cons a ts)
  show ?case using Cons [of a] Cons [of t] by simp
qed

lemma earliest_le: "u \<in> set (t # ts) \<Longrightarrow> finished (earliest t ts) \<le> finished u"
proof (induction ts arbitrary: t)
  case Nil
  then show ?case by simp
next
  case (Cons a ts)
  show ?case
  proof (cases "finished a < finished t")
    case True
    have "finished (earliest a ts) \<le> finished a" by (rule earliest_le_head)
    then show ?thesis using True Cons.prems Cons.IH [of a] by auto
  next
    case False
    have "finished (earliest t ts) \<le> finished t" by (rule earliest_le_head)
    then show ?thesis using False Cons.prems Cons.IH [of t] by auto
  qed
qed

lemma mset_as_completed: "mset (as_completed ts) = mset ts"
proof (induction ts rule: as_completed.induct)
  case 1
  show ?case by simp
next
  case (2 t ts)
  have "earliest t ts \<in># mset (t # ts)" using earliest_in [of t ts] by (simp only: set_mset_mset)
  then show ?case using 2 by (simp only: as_completed.simps mset.simps mset_remove1 insert_DiffM)
qed

lemma set_as_completed: "set (as_completed ts) = set ts"
  by (rule mset_eq_setD [OF mset_as_completed])

lemma length_as_completed: "length (as_completed ts) = length ts"
  by (rule mset_eq_length [OF mset_as_completed])

lemma sorted_as_completed: "sorted (map finished (as_completed ts))"
proof (induction ts rule: as_completed.induct)
  case 1
  show ?case by simp
next
  case (2 t ts)
  have "finished (earliest t ts) \<le> finished u"
    if "u \<in> set (as_completed (remove1 (earliest t ts) (t # ts)))" for u
  proof -
    from that have "u \<in> set (remove1 (earliest t ts) (t # ts))"
      by (simp only: set_as_completed)
    then have "u \<in> set (t # ts)" using set_remove1_subset [of "earliest t ts" "t # ts"] by blast
    then show ?thesis by (rule earliest_le)
  qed
  then show ?case using 2 by (simp del: remove1.simps)
qed

section \<open>Properties of the traces\<close>

lemma launches_append: "launches (xs @ ys) = launches xs @ launches ys"
  by (induction xs) (auto split: event.splits)

lemma yields_append: "yields (xs @ ys) = yields xs @ yields ys"
  by (induction xs) (auto split: event.splits)

lemma raised_append: "raised (xs @ ys) = raised xs @ raised ys"
  by (induction xs) (auto split: event.splits)

lemma launches_map_Launch: "launches (map Launch ts) = ts"
  by (induction ts) auto

lemma yields_map_Launch: "yields (map Launch ts) = []"
  by (induction ts) auto

lemma raised_map_Launch: "raised (map Launch ts) = []"
  by (induction ts) auto

lemma launches_drain: "launches (drain now ts) = []"
  by (induction ts arbitrary: now) auto

lemma yields_drain: "yields (drain now ts) = ts"
  by (induction ts arbitrary: now) auto

lemma raised_drain: "raised (drain now ts) = []"
  by (induction ts arbitrary: now) auto

lemma clock_after_ge: "now \<le> clock_after now ts"
proof (induction ts arbitrary: now)
  case Nil
  show ?case by simp
next
  case (Cons t ts)
  show ?case using Cons [of "max now (finished t)"] by simp
qed

lemma clock_after_finished: "u \<in> set ts \<Longrightarrow> finished u \<le> clock_after now ts"
proof (induction ts arbitrary: now)
  case Nil
  then show ?case by simp
next
  case (Cons t ts)
  show ?case
  proof (cases "u = t")
    case True
    then show ?thesis using clock_after_ge [of "max now (finished t)" ts] by simp
  next
    case False
    then show ?thesis using Cons.prems Cons.IH [of "max now (finished t)"] by simp
  qed
qed


lemma fetch_url_time: "t0 + delay \<le> fst (fetch_url client url delay t0)"
  by (simp add: fetch_url_def Let_def split: prod.splits get_result.splits)

lemma tid_spawn: "tid (spawn client delay now iu) = fst iu"
  by (simp add: spawn_def)

lemma started_spawn: "started (spawn client delay now iu) = now"
  by (simp add: spawn_def)

lemma finished_spawn: "now + delay \<le> finished (spawn client delay now iu)"
  by (simp add: spawn_def fetch_url_time)


lemma map_tid_spawn: "map tid (map (\<lambda>iu. spawn client (f iu) now iu) (enumerate i us)) = [i..<i + length us]"
  by (simp add: tid_spawn comp_def)


lemma yields_concurrent_http_gen:
  "yields (concurrent_http_gen client urls t0)
     = as_completed (map (\<lambda>iu. spawn client (100 * (fst iu mod 3)) t0 iu) (enumerate 0 urls))"
  by (simp add: concurrent_http_gen_def Let_def yields_append yields_map_Launch yields_drain
        del: map_map)

lemma launches_concurrent_http_gen:
  "launches (concurrent_http_gen client urls t0)
     = map (\<lambda>iu. spawn client (100 * (fst iu mod 3)) t0 iu) (enumerate 0 urls)"
  by (simp add: concurrent_http_gen_def Let_def launches_append launches_map_Launch launches_drain
        del: map_map)

lemma mset_map_as_completed: "mset (map f (as_completed ts)) = mset (map f ts)"
  by (simp only: mset_map mset_as_completed)



lemma batch_loop_done: "length urls \<le> i \<Longrightarrow> batch_loop client urls B i now = []"
  by (simp add: batch_loop.simps)

lemma batch_loop_step:
  "0 < B \<Longrightarrow> i < length urls \<Longrightarrow>
   batch_loop client urls B i now =
     map Launch (batch_tasks client urls B i now)
     @ drain now (as_completed (batch_tasks client urls B i now))
     @ batch_loop client urls B (i + B)
         (clock_after now (as_completed (batch_tasks client urls B i now)))"
  by (subst batch_loop.simps) simp

lemma tids_batch_tasks:
  "map tid (batch_tasks client urls B i now) = [i..<i + min B (length urls - i)]"
  unfolding batch_tasks_def
  using map_tid_spawn [of client "\<lambda>iu. 50" now i "take B (drop i urls)"]
  by (simp add: min.commute)


lemma length_batch_tasks: "length (batch_tasks client urls B i now) \<le> B"
  by (simp add: batch_tasks_def)

lemma started_batch_tasks: "t \<in> set (batch_tasks client urls B i now) \<Longrightarrow> started t = now"
  by (auto simp: batch_tasks_def started_spawn)

lemma finished_batch_tasks: "t \<in> set (batch_tasks client urls B i now) \<Longrightarrow> now + 50 \<le> finished t"
  by (auto simp: batch_tasks_def finished_spawn)

lemma upt_batches:
  assumes "0 < B" and "i < n"
  shows "[i..<i + min B (n - i)] @ [i + B..<n] = [i..<n::nat]"
proof (cases "i + B \<le> n")
  case True
  with assms have m: "min B (n - i) = B" by simp
  from True obtain k where n: "n = i + B + k" by (auto simp: le_iff_add)
  have "[i..<i + B + k] = [i..<i + B] @ [i + B..<i + B + k]"
    by (rule upt_add_eq_append) simp
  then show ?thesis using m by (simp add: n)
next
  case False
  with assms have "min B (n - i) = n - i" and "i + (n - i) = n" by simp_all
  then show ?thesis using False by simp
qed

lemma launches_batch_loop:
  "0 < B \<Longrightarrow> map tid (launches (batch_loop client urls B i now)) = [i..<length urls]"
proof (induction client urls B i now rule: batch_loop.induct)
  case (1 client urls B i now)
  show ?case
  proof (cases "length urls \<le> i")
    case True
    then show ?thesis by (simp add: batch_loop_done)
  next
    case False
    then have lt: "i < length urls" by simp
    have IH: "map tid (launches (batch_loop client urls B (i + B)
                 (clock_after now (as_completed (batch_tasks client urls B i now)))))
              = [i + B..<length urls]"
      using 1 False by simp
    show ?thesis
      by (simp only: batch_loop_step [OF "1.prems" lt] launches_append launches_map_Launch
            launches_drain map_append tids_batch_tasks IH append_Nil
            upt_batches [OF "1.prems" lt])
  qed
qed

lemma yields_batch_loop_tids:
  "0 < B \<Longrightarrow> mset (map tid (yields (batch_loop client urls B i now))) = mset [i..<length urls]"
proof (induction client urls B i now rule: batch_loop.induct)
  case (1 client urls B i now)
  show ?case
  proof (cases "length urls \<le> i")
    case True
    then show ?thesis by (simp add: batch_loop_done)
  next
    case False
    then have lt: "i < length urls" by simp
    have IH: "mset (map tid (yields (batch_loop client urls B (i + B)
                 (clock_after now (as_completed (batch_tasks client urls B i now))))))
              = mset [i + B..<length urls]"
      using 1 False by simp
    have "mset (map tid (yields (batch_loop client urls B i now)))
            = mset ([i..<i + min B (length urls - i)] @ [i + B..<length urls])"
      by (simp only: batch_loop_step [OF "1.prems" lt] yields_append yields_map_Launch
            yields_drain map_append mset_append mset_map_as_completed tids_batch_tasks IH
            append_Nil)
    then show ?thesis by (simp only: upt_batches [OF "1.prems" lt])
  qed
qed


lemma raised_batch_loop: "raised (batch_loop client urls B i now) = []"
proof (induction client urls B i now rule: batch_loop.induct)
  case (1 client urls B i now)
  show ?case
  proof (cases "B = 0 \<or> length urls \<le> i")
    case True
    then show ?thesis by (subst batch_loop.simps) simp
  next
    case False
    then show ?thesis using 1
      by (subst batch_loop.simps) (simp add: raised_append raised_map_Launch raised_drain)
  qed
qed




section \<open>The claims\<close>



lemma index_of_less: "x \<in> set xs \<Longrightarrow> index_of x xs < length xs"
  by (induction xs) auto

lemma nth_index_of: "x \<in> set xs \<Longrightarrow> xs ! index_of x xs = x"
  by (induction xs) auto

lemma as_completed_order:
  assumes d: "distinct (map tid ts)"
    and a: "a \<in> set ts" and b: "b \<in> set ts"
    and lt: "finished a < finished b"
  shows "index_of (tid a) (map tid (as_completed ts)) < index_of (tid b) (map tid (as_completed ts))"
proof -
  let ?ys = "as_completed ts"
  let ?p = "index_of (tid a) (map tid ?ys)"
  let ?q = "index_of (tid b) (map tid ?ys)"
  have inj: "inj_on tid (set ts)" using d by (simp add: distinct_map)
  have sets: "set ?ys = set ts" by (rule set_as_completed)
  have a': "tid a \<in> set (map tid ?ys)" and b': "tid b \<in> set (map tid ?ys)"
    using a b sets by simp_all
  have p: "?p < length ?ys" using index_of_less [OF a'] by simp
  have q: "?q < length ?ys" using index_of_less [OF b'] by simp
  have "tid (?ys ! ?p) = tid a" using nth_index_of [OF a'] p by simp
  moreover have "?ys ! ?p \<in> set ts" using p sets nth_mem by blast
  ultimately have yp: "?ys ! ?p = a" using inj a by (auto dest: inj_onD)
  have "tid (?ys ! ?q) = tid b" using nth_index_of [OF b'] q by simp
  moreover have "?ys ! ?q \<in> set ts" using q sets nth_mem by blast
  ultimately have yq: "?ys ! ?q = b" using inj b by (auto dest: inj_onD)
  show ?thesis
  proof (rule ccontr)
    assume "\<not> ?p < ?q"
    then have "?q \<le> ?p" by simp
    then have "map finished ?ys ! ?q \<le> map finished ?ys ! ?p"
      using sorted_as_completed [of ts] p by (simp add: sorted_iff_nth_mono del: nth_map)
    then have "finished b \<le> finished a" using p q yp yq by simp
    then show False using lt by simp
  qed
qed

lemma nth_concurrent_tasks:
  "i < length urls \<Longrightarrow>
   map (\<lambda>iu. spawn client (100 * (fst iu mod 3)) t0 iu) (enumerate 0 urls) ! i
     = spawn client (100 * (i mod 3)) t0 (i, urls ! i)"
  by (simp add: nth_enumerate_eq)

text \<open>
  C2. \<^verbatim>\<open>concurrent_http_gen\<close> starts every item at once and yields in completion order:
  for any two items of which the first settles strictly earlier than the second, the
  first is yielded before the second, wherever they stand in the input. In particular,
  for three items \<open>A\<close>, \<open>B\<close>, \<open>C\<close> that settle after 0.3 s, 0.1 s and 0.2 s the order
  of the yields is \<open>B\<close>, \<open>C\<close>, \<open>A\<close>.
\<close>

theorem C2_completion_order:
  "(\<forall>i<length urls. \<forall>j<length urls.
      fst (fetch_url client (urls ! i) (100 * (i mod 3)) t0)
        < fst (fetch_url client (urls ! j) (100 * (j mod 3)) t0)
      \<longrightarrow> index_of i (map tid (yields (concurrent_http_gen client urls t0)))
          < index_of j (map tid (yields (concurrent_http_gen client urls t0))))
   \<and> map finished (launches (concurrent_http_gen example_client [''A'', ''B'', ''C''] 0))
       = [300, 100, 200]
   \<and> map tid (yields (concurrent_http_gen example_client [''A'', ''B'', ''C''] 0)) = [1, 2, 0]"
proof -
  let ?ts = "map (\<lambda>iu. spawn client (100 * (fst iu mod 3)) t0 iu) (enumerate 0 urls)"
  have d: "distinct (map tid ?ts)"
    using map_tid_spawn [of client "\<lambda>iu. 100 * (fst iu mod 3)" t0 0 urls] by simp
  have order: "index_of i (map tid (yields (concurrent_http_gen client urls t0)))
          < index_of j (map tid (yields (concurrent_http_gen client urls t0)))"
    if i: "i < length urls" and j: "j < length urls"
      and lt: "fst (fetch_url client (urls ! i) (100 * (i mod 3)) t0)
        < fst (fetch_url client (urls ! j) (100 * (j mod 3)) t0)" for i j
  proof -
    let ?a = "spawn client (100 * (i mod 3)) t0 (i, urls ! i)"
    let ?b = "spawn client (100 * (j mod 3)) t0 (j, urls ! j)"
    have a: "?a \<in> set ?ts" using nth_concurrent_tasks [OF i, of client t0] i nth_mem [of i ?ts] by simp
    have b: "?b \<in> set ?ts" using nth_concurrent_tasks [OF j, of client t0] j nth_mem [of j ?ts] by simp
    have f: "finished ?a < finished ?b" using lt by (simp add: spawn_def)
    show ?thesis
      using as_completed_order [OF d a b f]
      by (simp only: yields_concurrent_http_gen tid_spawn fst_conv)
  qed
  have s1: "map finished (launches (concurrent_http_gen example_client [''A'', ''B'', ''C''] 0))
       = [300, 100, 200]"
    by (simp add: launches_concurrent_http_gen example_client_def spawn_def fetch_url_def
          enumerate_eq_zip upt_rec)
  have s2: "map tid (yields (concurrent_http_gen example_client [''A'', ''B'', ''C''] 0)) = [1, 2, 0]"
    by (simp add: yields_concurrent_http_gen example_client_def spawn_def fetch_url_def
          enumerate_eq_zip upt_rec)
  from order s1 s2 show ?thesis by blast
qed

theorem C2_completion_order_witness:
  "fst (fetch_url example_client ''B'' 100 0) < fst (fetch_url example_client ''A'' 0 0)
   \<and> index_of 1 (map tid (yields (concurrent_http_gen example_client [''A'', ''B'', ''C''] 0)))
     < index_of 0 (map tid (yields (concurrent_http_gen example_client [''A'', ''B'', ''C''] 0)))"
proof -
  have lt: "fst (fetch_url example_client ''B'' 100 0) < fst (fetch_url example_client ''A'' 0 0)"
    by (simp add: fetch_url_def example_client_def)
  have "index_of 1 (map tid (yields (concurrent_http_gen example_client [''A'', ''B'', ''C''] 0)))
     < index_of 0 (map tid (yields (concurrent_http_gen example_client [''A'', ''B'', ''C''] 0)))"
    using lt C2_completion_order [of "[''A'', ''B'', ''C'']" example_client 0,
        THEN conjunct1, rule_format, of 1 0]
    by simp
  with lt show ?thesis by simp
qed

lemma fetch_url_eq:
  "fetch_url client url delay t0 =
     (case client url (t0 + delay) of
        (d, Returns resp) \<Rightarrow>
          (t0 + delay + d,
           [(''url'', PyStr url), (''status'', PyInt (status_code resp)),
            (''length'', PyInt (int (length (response_text resp)))), (''success'', PyBool True)])
      | (d, Raises e) \<Rightarrow>
          (t0 + delay + d,
           [(''url'', PyStr url), (''status'', PyNone), (''length'', PyInt 0),
            (''success'', PyBool False), (''error'', PyStr e)]))"
  by (cases "delay = 0") (simp_all add: fetch_url_def Let_def split: prod.splits get_result.splits)

lemma fetch_url_Raises:
  "snd (client url (t0 + delay)) = Raises e \<Longrightarrow>
   snd (fetch_url client url delay t0) =
     [(''url'', PyStr url), (''status'', PyNone), (''length'', PyInt 0),
      (''success'', PyBool False), (''error'', PyStr e)]"
  by (cases "client url (t0 + delay)") (simp add: fetch_url_eq)

lemma fetch_url_Returns:
  "snd (client url (t0 + delay)) = Returns resp \<Longrightarrow>
   snd (fetch_url client url delay t0) =
     [(''url'', PyStr url), (''status'', PyInt (status_code resp)),
      (''length'', PyInt (int (length (response_text resp)))), (''success'', PyBool True)]"
  by (cases "client url (t0 + delay)") (simp add: fetch_url_eq)

text \<open>
  C10. The dict returned by \<^verbatim>\<open>fetch_url\<close> has the keys \<^verbatim>\<open>url\<close>, \<^verbatim>\<open>status\<close>,
  \<^verbatim>\<open>length\<close> and \<^verbatim>\<open>success\<close>; \<^verbatim>\<open>url\<close> is the input URL; \<^verbatim>\<open>success\<close> is \<^verbatim>\<open>True\<close>
  exactly when the request raised nothing; when it raised, \<^verbatim>\<open>status\<close> is \<^verbatim>\<open>None\<close>,
  \<^verbatim>\<open>length\<close> is 0 and \<^verbatim>\<open>error\<close> holds the text of the exception.
\<close>

theorem C10_outcome_shape:
  "{''url'', ''status'', ''length'', ''success''} \<subseteq> fst ` set (snd (fetch_url client url delay t0))
   \<and> map_of (snd (fetch_url client url delay t0)) ''url'' = Some (PyStr url)
   \<and> map_of (snd (fetch_url client url delay t0)) ''success''
       = Some (PyBool (\<forall>e. snd (client url (t0 + delay)) \<noteq> Raises e))
   \<and> (\<forall>e. snd (client url (t0 + delay)) = Raises e \<longrightarrow>
          map_of (snd (fetch_url client url delay t0)) ''status'' = Some PyNone
        \<and> map_of (snd (fetch_url client url delay t0)) ''length'' = Some (PyInt 0)
        \<and> map_of (snd (fetch_url client url delay t0)) ''error'' = Some (PyStr e))"
proof (cases "snd (client url (t0 + delay))")
  case (Returns resp)
  show ?thesis using Returns by (simp add: fetch_url_Returns)
next
  case (Raises e)
  show ?thesis using Raises by (simp add: fetch_url_Raises)
qed

theorem C10_outcome_shape_witness:
  "snd (example_client ''B'' (7 + 0)) = Raises ''boom''
   \<and> map_of (snd (fetch_url example_client ''B'' 0 7)) ''status'' = Some PyNone
   \<and> map_of (snd (fetch_url example_client ''B'' 0 7)) ''length'' = Some (PyInt 0)
   \<and> map_of (snd (fetch_url example_client ''B'' 0 7)) ''error'' = Some (PyStr ''boom'')"
proof -
  have r: "snd (example_client ''B'' (7 + 0)) = Raises ''boom''"
    by (simp add: example_client_def)
  show ?thesis
    using r C10_outcome_shape [of example_client "''B''" 0 7, THEN conjunct2, THEN conjunct2,
        THEN conjunct2, rule_format, OF r]
    by simp
qed

text \<open>
  C8. For an empty input every generator does nothing: it starts no operation and yields
  nothing. The sequential and the concurrent generators, and the batch generator for any
  batch size other than 0, end at once with an empty trace; for a batch size of 0 the
  batch generator launches nothing and yields nothing either (it ends at once with the
  \<^verbatim>\<open>ValueError\<close> of \<^verbatim>\<open>range\<close>).
\<close>

theorem C8_empty_input:
  "sequential_http_gen client [] t0 = []
   \<and> concurrent_http_gen client [] t0 = []
   \<and> (batch_size \<noteq> 0 \<longrightarrow> batch_http_gen client [] batch_size t0 = [])
   \<and> launches (batch_http_gen client [] batch_size t0) = []
   \<and> yields (batch_http_gen client [] batch_size t0) = []
   \<and> sequential_gen 0 t0 = []
   \<and> concurrent_gen 0 t0 = []"
  by (simp add: sequential_http_gen_def concurrent_http_gen_def batch_http_gen_def
        batch_loop_done sequential_gen_def concurrent_gen_def enumerate_eq_zip)

theorem C8_empty_input_witness:
  "(3::int) \<noteq> 0 \<and> batch_http_gen example_client [] 3 0 = []"
  using C8_empty_input [of example_client 0 3] by simp

text \<open>
  C5, as the code has it. A batch size below 1 is not rejected as such. For a batch size
  of 0 the generator ends with the \<^verbatim>\<open>ValueError\<close> of \<^verbatim>\<open>range\<close>; for a negative batch
  size it ends normally. In both cases it starts no operation and yields nothing.
\<close>

theorem C5_batch_size_below_one:
  "batch_size < 1 \<Longrightarrow>
     launches (batch_http_gen client urls batch_size t0) = []
   \<and> yields (batch_http_gen client urls batch_size t0) = []
   \<and> raised (batch_http_gen client urls batch_size t0)
       = (if batch_size = 0 then [ValueError ''range() arg 3 must not be zero''] else [])"
  by (simp add: batch_http_gen_def)

theorem C5_batch_size_below_one_witness:
  "(0::int) < 1
   \<and> launches (batch_http_gen example_client [''A'', ''B''] 0 0) = []
   \<and> yields (batch_http_gen example_client [''A'', ''B''] 0 0) = []
   \<and> raised (batch_http_gen example_client [''A'', ''B''] 0 0)
       = [ValueError ''range() arg 3 must not be zero'']"
  using C5_batch_size_below_one [of 0 example_client "[''A'', ''B'']" 0] by simp

text \<open>A negative batch size raises nothing: the run over two items is empty.\<close>

theorem C5_negative_batch_size_counterexample:
  "(-1::int) < 1 \<and> batch_http_gen example_client [''A'', ''B''] (-1) 0 = []"
  by (simp add: batch_http_gen_def)




lemma in_flight_append: "in_flight (xs @ ys) t = in_flight xs t @ in_flight ys t"
  by (simp add: in_flight_def)

lemma in_flight_not_started: "\<forall>k\<in>set ts. t < started k \<Longrightarrow> in_flight ts t = []"
  by (auto simp: in_flight_def filter_empty_conv)

lemma in_flight_all_settled: "\<forall>k\<in>set ts. finished k \<le> t \<Longrightarrow> in_flight ts t = []"
  by (auto simp: in_flight_def filter_empty_conv)

lemma length_in_flight: "length (in_flight ts t) \<le> length ts"
  by (simp add: in_flight_def)

lemma launches_batch_loop_step:
  "0 < B \<Longrightarrow> i < length urls \<Longrightarrow>
   launches (batch_loop client urls B i now) =
     batch_tasks client urls B i now
     @ launches (batch_loop client urls B (i + B)
         (clock_after now (as_completed (batch_tasks client urls B i now))))"
  by (simp only: batch_loop_step launches_append launches_map_Launch launches_drain append_Nil)

lemma started_batch_loop:
  "0 < B \<Longrightarrow> t \<in> set (launches (batch_loop client urls B i now)) \<Longrightarrow> now \<le> started t"
proof (induction client urls B i now rule: batch_loop.induct)
  case (1 client urls B i now)
  show ?case
  proof (cases "length urls \<le> i")
    case True
    then show ?thesis using "1.prems" by (simp add: batch_loop_done)
  next
    case False
    then have lt: "i < length urls" by simp
    let ?ts = "batch_tasks client urls B i now"
    let ?now' = "clock_after now (as_completed ?ts)"
    from "1.prems"(2) have "t \<in> set ?ts \<or> t \<in> set (launches (batch_loop client urls B (i + B) ?now'))"
      by (simp add: launches_batch_loop_step [OF "1.prems"(1) lt])
    then show ?thesis
    proof
      assume "t \<in> set ?ts"
      then show ?thesis by (simp add: started_batch_tasks)
    next
      assume "t \<in> set (launches (batch_loop client urls B (i + B) ?now'))"
      moreover have "\<not> (B = 0 \<or> length urls \<le> i)" using "1.prems"(1) lt by simp
      ultimately have "?now' \<le> started t" using "1.prems"(1) by (rule "1.IH" [rotated 2])
      then show ?thesis using clock_after_ge [of now "as_completed ?ts"] by (rule le_trans [rotated])
    qed
  qed
qed

lemma in_flight_batch_loop:
  "0 < B \<Longrightarrow> length (in_flight (launches (batch_loop client urls B i now)) t) \<le> B"
proof (induction client urls B i now rule: batch_loop.induct)
  case (1 client urls B i now)
  show ?case
  proof (cases "length urls \<le> i")
    case True
    then show ?thesis by (simp add: batch_loop_done in_flight_def)
  next
    case False
    then have lt: "i < length urls" by simp
    let ?ts = "batch_tasks client urls B i now"
    let ?now' = "clock_after now (as_completed ?ts)"
    let ?rest = "launches (batch_loop client urls B (i + B) ?now')"
    have split: "in_flight (launches (batch_loop client urls B i now)) t
                   = in_flight ?ts t @ in_flight ?rest t"
      by (simp only: launches_batch_loop_step [OF "1.prems" lt] in_flight_append)
    show ?thesis
    proof (cases "t < ?now'")
      case True
      have "\<forall>k\<in>set ?rest. t < started k"
      proof
        fix k assume "k \<in> set ?rest"
        with "1.prems" have "?now' \<le> started k" by (rule started_batch_loop)
        with True show "t < started k" by (rule less_le_trans)
      qed
      then have "in_flight ?rest t = []" by (rule in_flight_not_started)
      then show ?thesis
        using split length_in_flight [of ?ts t] length_batch_tasks [of client urls B i now]
        by simp
    next
      case False
      have "\<forall>k\<in>set ?ts. finished k \<le> t"
      proof
        fix k assume "k \<in> set ?ts"
        then have "k \<in> set (as_completed ?ts)" by (simp only: set_as_completed)
        then have "finished k \<le> ?now'" by (rule clock_after_finished)
        then show "finished k \<le> t" using False by simp
      qed
      then have "in_flight ?ts t = []" by (rule in_flight_all_settled)
      moreover have "\<not> (B = 0 \<or> length urls \<le> i)" using "1.prems" lt by simp
      then have "length (in_flight ?rest t) \<le> B" using "1.prems" by (rule "1.IH")
      ultimately show ?thesis using split by simp
    qed
  qed
qed

lemma div_in_batch:
  assumes "B dvd i" and "i \<le> x" and "x < i + B"
  shows "x div B = i div (B::nat)"
proof -
  from assms(1) obtain k where i: "i = B * k" by (auto simp: dvd_def)
  from assms(2,3) obtain r where x: "x = i + r" and r: "r < B"
    by (auto simp: le_iff_add)
  from r have "0 < B" by simp
  then show ?thesis using r by (simp add: x i)
qed

lemma div_next_batch: "0 < B \<Longrightarrow> (i + B) div B = Suc (i div (B::nat))"
  using div_add_self2 [of B i] by simp

lemma tid_batch_tasks:
  "t \<in> set (batch_tasks client urls B i now) \<Longrightarrow> i \<le> tid t \<and> tid t < i + B"
proof -
  assume "t \<in> set (batch_tasks client urls B i now)"
  then have "tid t \<in> set (map tid (batch_tasks client urls B i now))" by simp
  then show ?thesis by (simp only: tids_batch_tasks) auto
qed

lemma tid_launches_batch_loop:
  "0 < B \<Longrightarrow> t \<in> set (launches (batch_loop client urls B i now)) \<Longrightarrow> i \<le> tid t"
proof -
  assume B: "0 < B" and "t \<in> set (launches (batch_loop client urls B i now))"
  then have "tid t \<in> set (map tid (launches (batch_loop client urls B i now)))" by simp
  then show ?thesis by (simp only: launches_batch_loop [OF B]) simp
qed

lemma separated_batch_loop:
  "0 < B \<Longrightarrow> B dvd i \<Longrightarrow>
   a \<in> set (launches (batch_loop client urls B i now)) \<Longrightarrow>
   b \<in> set (launches (batch_loop client urls B i now)) \<Longrightarrow>
   tid a div B < tid b div B \<Longrightarrow> finished a \<le> started b"
proof (induction client urls B i now rule: batch_loop.induct)
  case (1 client urls B i now)
  show ?case
  proof (cases "length urls \<le> i")
    case True
    then show ?thesis using "1.prems" by (simp add: batch_loop_done)
  next
    case False
    then have lt: "i < length urls" by simp
    let ?ts = "batch_tasks client urls B i now"
    let ?now' = "clock_after now (as_completed ?ts)"
    let ?rest = "launches (batch_loop client urls B (i + B) ?now')"
    note B = "1.prems"(1) and dvd = "1.prems"(2)
    have a: "a \<in> set ?ts \<or> a \<in> set ?rest"
      using "1.prems"(3) by (simp add: launches_batch_loop_step [OF B lt])
    have b: "b \<in> set ?ts \<or> b \<in> set ?rest"
      using "1.prems"(4) by (simp add: launches_batch_loop_step [OF B lt])
    have here: "tid k div B = i div B" if "k \<in> set ?ts" for k
    proof -
      from tid_batch_tasks [OF that] have "i \<le> tid k" and "tid k < i + B" by simp_all
      with dvd show ?thesis by (rule div_in_batch)
    qed
    have later: "i div B < tid k div B" if "k \<in> set ?rest" for k
    proof -
      have "i + B \<le> tid k" using tid_launches_batch_loop [OF B that] .
      then have "(i + B) div B \<le> tid k div B" by (rule div_le_mono)
      then show ?thesis by (simp only: div_next_batch [OF B] Suc_le_eq)
    qed
    show ?thesis
    proof (cases "b \<in> set ?rest")
      case True
      note b_rest = True
      show ?thesis
      proof (cases "a \<in> set ?rest")
        case True
        have nb: "\<not> (B = 0 \<or> length urls \<le> i)" using B lt by simp
        have dvd': "B dvd i + B" using dvd by simp
        from nb B dvd' True b_rest "1.prems"(5) show ?thesis by (rule "1.IH")
      next
        case False
        with a have "a \<in> set ?ts" by simp
        then have "a \<in> set (as_completed ?ts)" by (simp only: set_as_completed)
        then have "finished a \<le> ?now'" by (rule clock_after_finished)
        moreover have "?now' \<le> started b" using started_batch_loop [OF B b_rest] .
        ultimately show ?thesis by simp
      qed
    next
      case False
      with b have "b \<in> set ?ts" by simp
      then have "tid b div B = i div B" by (rule here)
      moreover have "i div B \<le> tid a div B"
        using a here [of a] later [of a] by auto
      ultimately show ?thesis using "1.prems"(5) by simp
    qed
  qed
qed

lemma sorted_map_append:
  "sorted (map f xs) \<Longrightarrow> sorted (map f ys) \<Longrightarrow>
   \<forall>x\<in>set xs. \<forall>y\<in>set ys. f x \<le> f y \<Longrightarrow> sorted (map f (xs @ ys))"
  by (simp add: sorted_append)

lemma sorted_map_const: "\<forall>x\<in>set xs. f x = c \<Longrightarrow> sorted (map f xs)"
  by (induction xs) auto

lemma batch_of_drain: "e \<in> set (drain now ts) \<Longrightarrow> \<exists>c. \<exists>t\<in>set ts. e = Yield c t"
proof (induction ts arbitrary: now)
  case Nil
  then show ?case by simp
next
  case (Cons a ts)
  from Cons.prems have "e = Yield (max now (finished a)) a \<or> e \<in> set (drain (max now (finished a)) ts)"
    by simp
  then show ?case
  proof
    assume "e = Yield (max now (finished a)) a"
    then show ?thesis by auto
  next
    assume "e \<in> set (drain (max now (finished a)) ts)"
    then obtain c t where "t \<in> set ts" and "e = Yield c t" using Cons.IH by blast
    then show ?thesis by auto
  qed
qed

lemma batch_of_batch_loop:
  "0 < B \<Longrightarrow> e \<in> set (batch_loop client urls B i now) \<Longrightarrow> i div B \<le> batch_of B e"
proof (induction client urls B i now rule: batch_loop.induct)
  case (1 client urls B i now)
  show ?case
  proof (cases "length urls \<le> i")
    case True
    then show ?thesis using "1.prems" by (simp add: batch_loop_done)
  next
    case False
    then have lt: "i < length urls" by simp
    let ?ts = "batch_tasks client urls B i now"
    let ?now' = "clock_after now (as_completed ?ts)"
    from "1.prems"(2)
    consider (launch) "e \<in> set (map Launch ?ts)"
      | (yield) "e \<in> set (drain now (as_completed ?ts))"
      | (rest) "e \<in> set (batch_loop client urls B (i + B) ?now')"
      by (auto simp only: batch_loop_step [OF "1.prems"(1) lt] set_append Un_iff)
    then show ?thesis
    proof cases
      case launch
      then obtain t where "t \<in> set ?ts" and "e = Launch t" by auto
      then show ?thesis using tid_batch_tasks [of t client urls B i now] by (simp add: div_le_mono)
    next
      case yield
      then obtain c t where "t \<in> set (as_completed ?ts)" and "e = Yield c t"
        using batch_of_drain by blast
      then show ?thesis using tid_batch_tasks [of t client urls B i now]
        by (simp add: set_as_completed div_le_mono)
    next
      case rest
      have nb: "\<not> (B = 0 \<or> length urls \<le> i)" using "1.prems"(1) lt by simp
      from nb "1.prems"(1) rest have "(i + B) div B \<le> batch_of B e" by (rule "1.IH")
      moreover have "i div B \<le> (i + B) div B" by (rule div_le_mono) simp
      ultimately show ?thesis by (rule le_trans [rotated])
    qed
  qed
qed

lemma sorted_batch_loop:
  "0 < B \<Longrightarrow> B dvd i \<Longrightarrow> sorted (map (batch_of B) (batch_loop client urls B i now))"
proof (induction client urls B i now rule: batch_loop.induct)
  case (1 client urls B i now)
  show ?case
  proof (cases "length urls \<le> i")
    case True
    then show ?thesis by (simp add: batch_loop_done)
  next
    case False
    then have lt: "i < length urls" by simp
    let ?ts = "batch_tasks client urls B i now"
    let ?now' = "clock_after now (as_completed ?ts)"
    let ?here = "map Launch ?ts @ drain now (as_completed ?ts)"
    let ?rest = "batch_loop client urls B (i + B) ?now'"
    note B = "1.prems"(1) and dvd = "1.prems"(2)
    have here: "\<forall>e\<in>set ?here. batch_of B e = i div B"
    proof
      fix e assume "e \<in> set ?here"
      then consider (launch) "e \<in> set (map Launch ?ts)"
        | (yield) "e \<in> set (drain now (as_completed ?ts))"
        by (auto simp only: set_append Un_iff)
      then show "batch_of B e = i div B"
      proof cases
        case launch
        then obtain t where t: "t \<in> set ?ts" and e: "e = Launch t" by auto
        from tid_batch_tasks [OF t] have "i \<le> tid t" and "tid t < i + B" by simp_all
        with dvd have "tid t div B = i div B" by (rule div_in_batch)
        then show ?thesis by (simp add: e)
      next
        case yield
        then obtain c t where "t \<in> set (as_completed ?ts)" and e: "e = Yield c t"
          using batch_of_drain by blast
        then have t: "t \<in> set ?ts" by (simp only: set_as_completed)
        from tid_batch_tasks [OF t] have "i \<le> tid t" and "tid t < i + B" by simp_all
        with dvd have "tid t div B = i div B" by (rule div_in_batch)
        then show ?thesis by (simp add: e)
      qed
    qed
    have s1: "sorted (map (batch_of B) ?here)" using here by (rule sorted_map_const)
    have nb: "\<not> (B = 0 \<or> length urls \<le> i)" using B lt by simp
    have dvd': "B dvd i + B" using dvd by simp
    from nb B dvd' have s2: "sorted (map (batch_of B) ?rest)" by (rule "1.IH")
    have cross: "\<forall>x\<in>set ?here. \<forall>y\<in>set ?rest. batch_of B x \<le> batch_of B y"
    proof (intro ballI)
      fix x y assume x: "x \<in> set ?here" and y: "y \<in> set ?rest"
      have "(i + B) div B \<le> batch_of B y" using batch_of_batch_loop [OF B y] .
      then have "i div B \<le> batch_of B y" by (simp only: div_next_batch [OF B] Suc_le_eq less_imp_le)
      moreover have "batch_of B x = i div B" using here x by blast
      ultimately show "batch_of B x \<le> batch_of B y" by simp
    qed
    have eq: "batch_loop client urls B i now = ?here @ ?rest"
      by (simp only: batch_loop_step [OF B lt] append_assoc)
    from s1 s2 cross have "sorted (map (batch_of B) (?here @ ?rest))"
      by (rule sorted_map_append)
    then show ?thesis by (simp only: eq)
  qed
qed

lemma launches_batch_http_gen:
  "1 \<le> batch_size \<Longrightarrow>
   launches (batch_http_gen client urls batch_size t0)
     = launches (batch_loop client urls (nat batch_size) 0 t0)"
  by (simp add: batch_http_gen_def)

lemma batch_http_gen_positive:
  "1 \<le> batch_size \<Longrightarrow>
   batch_http_gen client urls batch_size t0 = batch_loop client urls (nat batch_size) 0 t0"
  by (simp add: batch_http_gen_def)

lemma yields_batch_loop_step:
  "0 < B \<Longrightarrow> i < length urls \<Longrightarrow>
   yields (batch_loop client urls B i now) =
     as_completed (batch_tasks client urls B i now)
     @ yields (batch_loop client urls B (i + B)
         (clock_after now (as_completed (batch_tasks client urls B i now))))"
  by (simp only: batch_loop_step yields_append yields_map_Launch yields_drain append_Nil)

lemma mset_yields_batch_loop:
  "0 < B \<Longrightarrow>
   mset (yields (batch_loop client urls B i now)) = mset (launches (batch_loop client urls B i now))"
proof (induction client urls B i now rule: batch_loop.induct)
  case (1 client urls B i now)
  show ?case
  proof (cases "length urls \<le> i")
    case True
    then show ?thesis by (simp add: batch_loop_done)
  next
    case False
    then have lt: "i < length urls" by simp
    have nb: "\<not> (B = 0 \<or> length urls \<le> i)" using "1.prems" lt by simp
    from nb "1.prems"
    have IH: "mset (yields (batch_loop client urls B (i + B)
                 (clock_after now (as_completed (batch_tasks client urls B i now)))))
            = mset (launches (batch_loop client urls B (i + B)
                 (clock_after now (as_completed (batch_tasks client urls B i now)))))"
      by (rule "1.IH")
    show ?thesis
      by (simp only: yields_batch_loop_step [OF "1.prems" lt]
            launches_batch_loop_step [OF "1.prems" lt] mset_append mset_as_completed IH)
  qed
qed

lemma slice_positions:
  assumes "0 < B"
  shows "length (filter (\<lambda>p. p div B = k) [0..<n]) \<le> (B::nat)"
proof -
  have sub: "set (filter (\<lambda>p. p div B = k) [0..<n]) \<subseteq> {k * B..<k * B + B}"
  proof
    fix p assume "p \<in> set (filter (\<lambda>p. p div B = k) [0..<n])"
    then have k: "p div B = k" by simp
    have "p = B * (p div B) + p mod B" by simp
    moreover have "p mod B < B" using assms by simp
    ultimately have "k * B \<le> p \<and> p < k * B + B" using k by (simp add: mult.commute)
    then show "p \<in> {k * B..<k * B + B}" by simp
  qed
  have "distinct (filter (\<lambda>p. p div B = k) [0..<n])" by simp
  then have "length (filter (\<lambda>p. p div B = k) [0..<n]) = card (set (filter (\<lambda>p. p div B = k) [0..<n]))"
    by (rule distinct_card [symmetric])
  also have "\<dots> \<le> card {k * B..<k * B + B}" using sub by (rule card_mono [rotated]) simp
  also have "\<dots> = B" by simp
  finally show ?thesis .
qed

lemma length_filter_map: "length (filter P (map f xs)) = length (filter (\<lambda>x. P (f x)) xs)"
  by (induction xs) simp_all

lemma batch_size_batch_loop:
  assumes "0 < B"
  shows "length (filter (\<lambda>t. tid t div B = k) (launches (batch_loop client urls B 0 now))) \<le> B"
proof -
  have "length (filter (\<lambda>t. tid t div B = k) (launches (batch_loop client urls B 0 now)))
      = length (filter (\<lambda>p. p div B = k) (map tid (launches (batch_loop client urls B 0 now))))"
    by (simp only: length_filter_map)
  also have "\<dots> = length (filter (\<lambda>p. p div B = k) [0..<length urls])"
    by (simp only: launches_batch_loop [OF assms])
  also have "\<dots> \<le> B" using assms by (rule slice_positions)
  finally show ?thesis .
qed

text \<open>
  C3, as the code has it. With a batch size \<open>L \<ge> 1\<close>, \<^verbatim>\<open>batch_http_gen\<close> has at most \<open>L\<close>
  operations in flight at any instant and launches every item. It does not refill a slot
  when one operation completes: an item of a later batch is started only when every
  operation of the earlier batches has settled.
\<close>

theorem C3_batch_concurrency_bound:
  assumes "1 \<le> batch_size"
  shows "length (in_flight (launches (batch_http_gen client urls batch_size t0)) t)
           \<le> nat batch_size
     \<and> map tid (launches (batch_http_gen client urls batch_size t0)) = [0..<length urls]
     \<and> (\<forall>a\<in>set (launches (batch_http_gen client urls batch_size t0)).
         \<forall>b\<in>set (launches (batch_http_gen client urls batch_size t0)).
           tid a div nat batch_size < tid b div nat batch_size \<longrightarrow> finished a \<le> started b)"
proof -
  from assms have B: "0 < nat batch_size" by simp
  have dvd: "nat batch_size dvd 0" by simp
  have bound: "length (in_flight (launches (batch_http_gen client urls batch_size t0)) t)
           \<le> nat batch_size"
    by (simp only: launches_batch_http_gen [OF assms] in_flight_batch_loop [OF B])
  have all: "map tid (launches (batch_http_gen client urls batch_size t0)) = [0..<length urls]"
    by (simp only: launches_batch_http_gen [OF assms] launches_batch_loop [OF B])
  have sep: "finished a \<le> started b"
    if "a \<in> set (launches (batch_http_gen client urls batch_size t0))"
      and "b \<in> set (launches (batch_http_gen client urls batch_size t0))"
      and "tid a div nat batch_size < tid b div nat batch_size" for a b
    using B dvd that(1,2) [unfolded launches_batch_http_gen [OF assms]] that(3)
    by (rule separated_batch_loop)
  from bound all sep show ?thesis by blast
qed

theorem C3_batch_concurrency_bound_witness:
  "(1::int) \<le> 2
   \<and> length (in_flight (launches (batch_http_gen example_client [''A'', ''B'', ''C''] 2 0)) 60)
       \<le> nat 2
   \<and> map tid (launches (batch_http_gen example_client [''A'', ''B'', ''C''] 2 0)) = [0, 1, 2]"
  using C3_batch_concurrency_bound [of 2 example_client "[''A'', ''B'', ''C'']" 0 60]
  by (simp add: upt_rec)

text \<open>
  With a batch size of 2 and items \<open>A\<close>, \<open>B\<close>, \<open>C\<close>: \<open>B\<close> settles at 50 and \<open>A\<close> at 350;
  \<open>C\<close> is started at 350, not at 50, and from 50 to 350 a single operation is in flight.
\<close>

theorem C3_no_refill_counterexample:
  "map started (launches (batch_http_gen example_client [''A'', ''B'', ''C''] 2 0)) = [0, 0, 350]
   \<and> map finished (launches (batch_http_gen example_client [''A'', ''B'', ''C''] 2 0))
       = [350, 50, 400]
   \<and> map tid (in_flight (launches (batch_http_gen example_client [''A'', ''B'', ''C''] 2 0)) 50)
       = [0]"
  by (simp add: batch_http_gen_def batch_loop.simps batch_tasks_def spawn_def fetch_url_def
        example_client_def enumerate_eq_zip upt_rec in_flight_def)

text \<open>
  C9. With a batch size \<open>B \<ge> 1\<close>, \<^verbatim>\<open>batch_http_gen\<close> handles the whole input in
  consecutive batches: every position \<open>0, \<dots>, n - 1\<close> is launched, in input order, and
  yielded exactly once; the item at position \<open>p\<close> belongs to batch \<open>p div B\<close>, every batch
  has at most \<open>B\<close> items, and the events of the run are ordered by batch, so that no
  result of a batch is yielded, and no item of it launched, before every event of the
  batches before it. In time, an item is started only when all items of the earlier
  batches have settled.
\<close>

theorem C9_batch_boundaries:
  assumes "1 \<le> batch_size"
  shows "map tid (launches (batch_http_gen client urls batch_size t0)) = [0..<length urls]
     \<and> mset (map tid (yields (batch_http_gen client urls batch_size t0)))
         = mset [0..<length urls]
     \<and> sorted (map (batch_of (nat batch_size)) (batch_http_gen client urls batch_size t0))
     \<and> (\<forall>k. length (filter (\<lambda>t. tid t div nat batch_size = k)
                   (launches (batch_http_gen client urls batch_size t0))) \<le> nat batch_size)
     \<and> mset (yields (batch_http_gen client urls batch_size t0))
         = mset (launches (batch_http_gen client urls batch_size t0))
     \<and> (\<forall>a\<in>set (launches (batch_http_gen client urls batch_size t0)).
         \<forall>b\<in>set (launches (batch_http_gen client urls batch_size t0)).
           tid a div nat batch_size < tid b div nat batch_size \<longrightarrow> finished a \<le> started b)"
proof -
  from assms have B: "0 < nat batch_size" by simp
  have dvd: "nat batch_size dvd 0" by simp
  have eq: "batch_http_gen client urls batch_size t0
              = batch_loop client urls (nat batch_size) 0 t0"
    using assms by (rule batch_http_gen_positive)
  have l: "map tid (launches (batch_http_gen client urls batch_size t0)) = [0..<length urls]"
    by (simp only: eq launches_batch_loop [OF B])
  have y: "mset (map tid (yields (batch_http_gen client urls batch_size t0)))
         = mset [0..<length urls]"
    by (simp only: eq yields_batch_loop_tids [OF B])
  have s: "sorted (map (batch_of (nat batch_size)) (batch_http_gen client urls batch_size t0))"
    by (simp only: eq sorted_batch_loop [OF B dvd])
  have n: "length (filter (\<lambda>t. tid t div nat batch_size = k)
                   (launches (batch_http_gen client urls batch_size t0))) \<le> nat batch_size" for k
    by (simp only: eq batch_size_batch_loop [OF B])
  have m: "mset (yields (batch_http_gen client urls batch_size t0))
         = mset (launches (batch_http_gen client urls batch_size t0))"
    by (simp only: eq mset_yields_batch_loop [OF B])
  have sep: "finished a \<le> started b"
    if "a \<in> set (launches (batch_http_gen client urls batch_size t0))"
      and "b \<in> set (launches (batch_http_gen client urls batch_size t0))"
      and "tid a div nat batch_size < tid b div nat batch_size" for a b
    using B dvd that(1,2) [unfolded eq] that(3)
    by (rule separated_batch_loop)
  from l y s n m sep show ?thesis by blast
qed

theorem C9_batch_boundaries_witness:
  "(1::int) \<le> 2
   \<and> map tid (launches (batch_http_gen example_client [''A'', ''B'', ''C''] 2 0)) = [0, 1, 2]
   \<and> mset (map tid (yields (batch_http_gen example_client [''A'', ''B'', ''C''] 2 0)))
       = mset [0, 1, 2]
   \<and> sorted (map (batch_of (nat 2)) (batch_http_gen example_client [''A'', ''B'', ''C''] 2 0))"
proof -
  have k: "(1::int) \<le> 2" by simp
  note t = C9_batch_boundaries [OF k, of example_client "[''A'', ''B'', ''C'']" 0]
  have u: "[0..<length [''A'', ''B'', ''C'']] = [0, 1, 2]" by (simp add: upt_rec)
  from t have "map tid (launches (batch_http_gen example_client [''A'', ''B'', ''C''] 2 0))
      = [0..<length [''A'', ''B'', ''C'']]"
    by (rule conjunct1)
  then have a: "map tid (launches (batch_http_gen example_client [''A'', ''B'', ''C''] 2 0))
      = [0, 1, 2]"
    by (simp only: u)
  from t have "mset (map tid (yields (batch_http_gen example_client [''A'', ''B'', ''C''] 2 0)))
      = mset [0..<length [''A'', ''B'', ''C'']]"
    by (rule conjunct2 [THEN conjunct1])
  then have b: "mset (map tid (yields (batch_http_gen example_client [''A'', ''B'', ''C''] 2 0)))
      = mset [0, 1, 2]"
    by (simp only: u)
  from t have c: "sorted (map (batch_of (nat 2))
      (batch_http_gen example_client [''A'', ''B'', ''C''] 2 0))"
    by (rule conjunct2 [THEN conjunct2, THEN conjunct1])
  from k a b c show ?thesis by (intro conjI)
qed

lemma abandon_after_launches:
  "abandon_after (Suc k) (map Launch ts @ es) = map Launch ts @ abandon_after (Suc k) es"
  by (induction ts) simp_all

lemma abandon_after_drain: "abandon_after k (drain now ts) = take k (drain now ts)"
proof (induction ts arbitrary: k now)
  case Nil
  show ?case by (cases k) simp_all
next
  case (Cons t ts)
  show ?case by (cases k) (simp_all add: Cons)
qed

lemma take_drain: "take k (drain now ts) = drain now (take k ts)"
proof (induction ts arbitrary: k now)
  case Nil
  show ?case by simp
next
  case (Cons t ts)
  show ?case by (cases k) (simp_all add: Cons)
qed

lemma last_yield_time_launches:
  "last_yield_time t0 (map Launch ts @ es) = last_yield_time t0 es"
  by (induction ts) simp_all

lemma last_yield_time_drain: "last_yield_time now (drain now ts) = clock_after now ts"
proof (induction ts arbitrary: now)
  case Nil
  show ?case by simp
next
  case (Cons t ts)
  show ?case using Cons [of "max now (finished t)"] by simp
qed

lemma abandon_concurrent_http_gen:
  "abandon_after (Suc k) (concurrent_http_gen client urls t0)
     = map Launch (launches (concurrent_http_gen client urls t0))
       @ drain t0 (take (Suc k) (yields (concurrent_http_gen client urls t0)))"
  by (simp only: launches_concurrent_http_gen yields_concurrent_http_gen)
     (simp only: concurrent_http_gen_def Let_def abandon_after_launches abandon_after_drain
        take_drain)

lemma started_concurrent_http_gen:
  "t \<in> set (launches (concurrent_http_gen client urls t0)) \<Longrightarrow> started t = t0"
  by (auto simp: launches_concurrent_http_gen started_spawn)

text \<open>
  C7, as the code has it. No generator cancels anything. When the consumer of
  \<^verbatim>\<open>concurrent_http_gen\<close> stops after \<open>k \<ge> 1\<close> results, all \<open>n\<close> operations have been
  launched and \<open>k\<close> of them awaited; nothing more is yielded, and every operation that has
  not settled by then is still in flight at the time of the abandonment.
\<close>

theorem C7_abandoned_operations_stay_in_flight:
  assumes "1 \<le> k"
  shows "launches (abandon_after k (concurrent_http_gen client urls t0))
           = launches (concurrent_http_gen client urls t0)
     \<and> length (launches (abandon_after k (concurrent_http_gen client urls t0))) = length urls
     \<and> yields (abandon_after k (concurrent_http_gen client urls t0))
         = take k (yields (concurrent_http_gen client urls t0))
     \<and> in_flight (launches (abandon_after k (concurrent_http_gen client urls t0)))
          (last_yield_time t0 (abandon_after k (concurrent_http_gen client urls t0)))
         = filter (\<lambda>t. last_yield_time t0 (abandon_after k (concurrent_http_gen client urls t0))
                         < finished t)
             (launches (concurrent_http_gen client urls t0))"
proof -
  from assms obtain j where k: "k = Suc j" by (cases k) simp_all
  let ?tr = "concurrent_http_gen client urls t0"
  let ?T = "last_yield_time t0 (abandon_after k ?tr)"
  have l: "launches (abandon_after k ?tr) = launches ?tr"
    by (simp only: k abandon_concurrent_http_gen launches_append launches_map_Launch
          launches_drain append_Nil2)
  have n: "length (launches (abandon_after k ?tr)) = length urls"
    by (simp only: l launches_concurrent_http_gen length_map length_enumerate)
  have y: "yields (abandon_after k ?tr) = take k (yields ?tr)"
    by (simp only: k abandon_concurrent_http_gen yields_append yields_map_Launch
          yields_drain append_Nil)
  have T: "t0 \<le> ?T"
    by (simp only: k abandon_concurrent_http_gen last_yield_time_launches
          last_yield_time_drain clock_after_ge)
  have f: "in_flight (launches (abandon_after k ?tr)) ?T
             = filter (\<lambda>t. ?T < finished t) (launches ?tr)"
    unfolding l in_flight_def
  proof (rule filter_cong [OF refl])
    fix t assume "t \<in> set (launches ?tr)"
    then have "started t = t0" by (rule started_concurrent_http_gen)
    then show "(started t \<le> ?T \<and> ?T < finished t) = (?T < finished t)" using T by simp
  qed
  from l n y f show ?thesis by blast
qed

theorem C7_abandoned_operations_stay_in_flight_witness:
  "(1::nat) \<le> 1
   \<and> length (launches (abandon_after 1 (concurrent_http_gen example_client [''A'', ''B'', ''C''] 0)))
       = 3
   \<and> yields (abandon_after 1 (concurrent_http_gen example_client [''A'', ''B'', ''C''] 0))
       = take 1 (yields (concurrent_http_gen example_client [''A'', ''B'', ''C''] 0))"
proof -
  have k: "(1::nat) \<le> 1" by simp
  note t = C7_abandoned_operations_stay_in_flight [OF k, of example_client "[''A'', ''B'', ''C'']" 0]
  from t have a: "length (launches (abandon_after 1
      (concurrent_http_gen example_client [''A'', ''B'', ''C''] 0))) = length [''A'', ''B'', ''C'']"
    by (rule conjunct2 [THEN conjunct1])
  from t have b: "yields (abandon_after 1 (concurrent_http_gen example_client [''A'', ''B'', ''C''] 0))
       = take 1 (yields (concurrent_http_gen example_client [''A'', ''B'', ''C''] 0))"
    by (rule conjunct2 [THEN conjunct2, THEN conjunct1])
  from a have a': "length (launches (abandon_after 1
      (concurrent_http_gen example_client [''A'', ''B'', ''C''] 0))) = 3"
    by simp
  from k a' b show ?thesis by (intro conjI)
qed

text \<open>
  The consumer takes one result of three and stops, at time 100: the operations of \<open>A\<close> and
  \<open>C\<close> are in flight then and settle at 300 and 200.
\<close>

theorem C7_not_cancelled_counterexample:
  "last_yield_time 0 (abandon_after 1 (concurrent_http_gen example_client [''A'', ''B'', ''C''] 0))
     = 100
   \<and> map tid (yields (abandon_after 1 (concurrent_http_gen example_client [''A'', ''B'', ''C''] 0)))
       = [1]
   \<and> map tid (in_flight
        (launches (abandon_after 1 (concurrent_http_gen example_client [''A'', ''B'', ''C''] 0))) 100)
       = [0, 2]
   \<and> map finished (in_flight
        (launches (abandon_after 1 (concurrent_http_gen example_client [''A'', ''B'', ''C''] 0))) 100)
       = [300, 200]"
  by (simp add: concurrent_http_gen_def spawn_def fetch_url_def example_client_def
        enumerate_eq_zip upt_rec in_flight_def)

lemma fetch_url_full_exact:
  "fetch_url_full (exact_runtime client) url delay t0
     = (fst (fetch_url client url delay t0), Inr (snd (fetch_url client url delay t0)))"
proof (cases "client url (t0 + delay)")
  case (Pair d r)
  then show ?thesis
    by (cases r; cases "delay = 0")
       (simp_all add: fetch_url_full_def maybe_sleep_def exact_runtime_def fetch_url_eq)
qed

lemma fetch_url_full_returns:
  "maybe_sleep rt delay t0 = (t1, Done ()) \<Longrightarrow> get rt url t1 = (d, Done (Returns resp)) \<Longrightarrow>
   fetch_url_full rt url delay t0 =
     (t1 + d,
      Inr [(''url'', PyStr url), (''status'', PyInt (status_code resp)),
           (''length'', PyInt (int (length (response_text resp)))), (''success'', PyBool True)])"
  by (simp add: fetch_url_full_def)

lemma fetch_url_full_raises:
  "maybe_sleep rt delay t0 = (t1, Done ()) \<Longrightarrow> get rt url t1 = (d, Done (Raises e)) \<Longrightarrow>
   fetch_url_full rt url delay t0 =
     (t1 + d,
      Inr [(''url'', PyStr url), (''status'', PyNone), (''length'', PyInt 0),
           (''success'', PyBool False), (''error'', PyStr e)])"
  by (simp add: fetch_url_full_def)

lemma fetch_url_full_sleep_escapes:
  "maybe_sleep rt delay t0 = (t1, Escaped x) \<Longrightarrow> fetch_url_full rt url delay t0 = (t1, Inl x)"
  by (simp add: fetch_url_full_def)

lemma fetch_url_full_get_escapes:
  "maybe_sleep rt delay t0 = (t1, Done ()) \<Longrightarrow> get rt url t1 = (d, Escaped x) \<Longrightarrow>
   fetch_url_full rt url delay t0 = (t1 + d, Inl x)"
  by (simp add: fetch_url_full_def)

lemma fetch_url_full_dict_iff:
  "(\<exists>v. snd (fetch_url_full rt url delay t0) = Inr v)
     \<longleftrightarrow> (\<exists>t1 d r. maybe_sleep rt delay t0 = (t1, Done ()) \<and> get rt url t1 = (d, Done r))"
proof (cases "maybe_sleep rt delay t0")
  case (Pair t1 s)
  show ?thesis
  proof (cases s)
    case (Escaped x)
    with Pair show ?thesis by (simp add: fetch_url_full_sleep_escapes)
  next
    case (Done u)
    with Pair have sl: "maybe_sleep rt delay t0 = (t1, Done ())" by simp
    show ?thesis
    proof (cases "get rt url t1")
      case (Pair d g)
      note g = this
      show ?thesis
      proof (cases g)
        case (Escaped x)
        with g sl show ?thesis by (simp add: fetch_url_full_get_escapes)
      next
        case (Done r)
        with g sl show ?thesis
          by (cases r) (simp_all add: fetch_url_full_returns fetch_url_full_raises)
      qed
    qed
  qed
qed

lemma raised_drain_full:
  "raised (drain_full now ts) = [] \<longleftrightarrow> (\<forall>t\<in>set ts. \<exists>v. result t = Inr v)"
proof (induction ts arbitrary: now)
  case Nil
  show ?case by simp
next
  case (Cons t ts)
  show ?case
  proof (cases "result t")
    case (Inl x)
    then show ?thesis by auto
  next
    case (Inr v)
    then show ?thesis using Cons [of "max now (finished t)"] by simp
  qed
qed

lemma yields_drain_full:
  "\<forall>t\<in>set ts. \<exists>v. result t = Inr v \<Longrightarrow> yields (drain_full now ts) = ts"
proof (induction ts arbitrary: now)
  case Nil
  show ?case by simp
next
  case (Cons t ts)
  from Cons.prems obtain v where v: "result t = Inr v" by auto
  from Cons.prems have "\<forall>t\<in>set ts. \<exists>v. result t = Inr v" by simp
  then have "yields (drain_full (max now (finished t)) ts) = ts" by (rule Cons.IH)
  then show ?case using v by simp
qed

lemma concurrent_full_tasks:
  "(\<forall>t\<in>set (map (\<lambda>iu. spawn_full rt (100 * (fst iu mod 3)) t0 iu) (enumerate 0 urls)).
       \<exists>v. result t = Inr v)
   \<longleftrightarrow> (\<forall>i<length urls.
          \<exists>v. snd (fetch_url_full rt (urls ! i) (100 * (i mod 3)) t0) = Inr v)"
  by (simp add: all_set_conv_all_nth nth_enumerate_eq spawn_full_def)

lemma raised_concurrent_http_gen_full:
  "raised (concurrent_http_gen_full rt urls t0) = []
     \<longleftrightarrow> (\<forall>i<length urls.
            \<exists>v. snd (fetch_url_full rt (urls ! i) (100 * (i mod 3)) t0) = Inr v)"
proof -
  let ?ts = "map (\<lambda>iu. spawn_full rt (100 * (fst iu mod 3)) t0 iu) (enumerate 0 urls)"
  have "raised (concurrent_http_gen_full rt urls t0) = raised (drain_full t0 (as_completed ?ts))"
    by (simp add: concurrent_http_gen_full_def Let_def raised_append raised_map_Launch
          del: map_map)
  then have "raised (concurrent_http_gen_full rt urls t0) = []
      \<longleftrightarrow> (\<forall>t\<in>set ?ts. \<exists>v. result t = Inr v)"
    by (simp only: raised_drain_full set_as_completed)
  then show ?thesis by (simp only: concurrent_full_tasks)
qed

lemma yields_concurrent_http_gen_full:
  assumes "\<forall>i<length urls.
            \<exists>v. snd (fetch_url_full rt (urls ! i) (100 * (i mod 3)) t0) = Inr v"
  shows "length (yields (concurrent_http_gen_full rt urls t0)) = length urls"
proof -
  let ?ts = "map (\<lambda>iu. spawn_full rt (100 * (fst iu mod 3)) t0 iu) (enumerate 0 urls)"
  from assms have "\<forall>t\<in>set ?ts. \<exists>v. result t = Inr v" by (simp only: concurrent_full_tasks)
  then have "\<forall>t\<in>set (as_completed ?ts). \<exists>v. result t = Inr v"
    by (simp only: set_as_completed)
  then have "yields (drain_full t0 (as_completed ?ts)) = as_completed ?ts"
    by (rule yields_drain_full)
  then have "yields (concurrent_http_gen_full rt urls t0) = as_completed ?ts"
    by (simp add: concurrent_http_gen_full_def Let_def yields_append yields_map_Launch
          del: map_map)
  then show ?thesis by (simp add: length_as_completed)
qed

text \<open>
  C4, as the code has it. \<^verbatim>\<open>fetch_url\<close> returns a dict exactly when neither of its awaits
  ends with an exception outside class \<^verbatim>\<open>Exception\<close>. Then a response of any status code
  gives the dict with \<^verbatim>\<open>success\<close> \<^verbatim>\<open>True\<close>, and a request that raises an exception of
  class \<^verbatim>\<open>Exception\<close> gives the failure dict that carries its text. An exception outside
  that class, raised by the sleep before the \<^verbatim>\<open>try\<close> or by the request inside it, leaves
  \<^verbatim>\<open>fetch_url\<close>; \<^verbatim>\<open>concurrent_http_gen\<close> raises to its consumer exactly when the operation
  of some item ends that way, and yields every item otherwise.
\<close>

theorem C4_failures_are_values_unless_escaped:
  "((\<exists>v. snd (fetch_url_full rt url delay t0) = Inr v)
      \<longleftrightarrow> (\<exists>t1 d r. maybe_sleep rt delay t0 = (t1, Done ()) \<and> get rt url t1 = (d, Done r)))
   \<and> (maybe_sleep rt delay t0 = (t1, Done ()) \<and> get rt url t1 = (d, Done (Returns resp)) \<longrightarrow>
        fetch_url_full rt url delay t0 =
          (t1 + d,
           Inr [(''url'', PyStr url), (''status'', PyInt (status_code resp)),
                (''length'', PyInt (int (length (response_text resp)))),
                (''success'', PyBool True)]))
   \<and> (maybe_sleep rt delay t0 = (t1, Done ()) \<and> get rt url t1 = (d, Done (Raises e)) \<longrightarrow>
        fetch_url_full rt url delay t0 =
          (t1 + d,
           Inr [(''url'', PyStr url), (''status'', PyNone), (''length'', PyInt 0),
                (''success'', PyBool False), (''error'', PyStr e)]))
   \<and> (maybe_sleep rt delay t0 = (t1, Escaped x) \<longrightarrow>
        fetch_url_full rt url delay t0 = (t1, Inl x))
   \<and> (maybe_sleep rt delay t0 = (t1, Done ()) \<and> get rt url t1 = (d, Escaped x) \<longrightarrow>
        fetch_url_full rt url delay t0 = (t1 + d, Inl x))
   \<and> (raised (concurrent_http_gen_full rt urls t0) = []
        \<longleftrightarrow> (\<forall>i<length urls.
               \<exists>v. snd (fetch_url_full rt (urls ! i) (100 * (i mod 3)) t0) = Inr v))
   \<and> ((\<forall>i<length urls.
          \<exists>v. snd (fetch_url_full rt (urls ! i) (100 * (i mod 3)) t0) = Inr v) \<longrightarrow>
        length (yields (concurrent_http_gen_full rt urls t0)) = length urls)
   \<and> fetch_url_full (exact_runtime client) url delay t0
       = (fst (fetch_url client url delay t0), Inr (snd (fetch_url client url delay t0)))"
  using fetch_url_full_dict_iff [of rt url delay t0]
    fetch_url_full_returns [of rt delay t0 t1 url d resp]
    fetch_url_full_raises [of rt delay t0 t1 url d e]
    fetch_url_full_sleep_escapes [of rt delay t0 t1 x url]
    fetch_url_full_get_escapes [of rt delay t0 t1 url d x]
    raised_concurrent_http_gen_full [of rt urls t0]
    yields_concurrent_http_gen_full [of urls rt t0]
    fetch_url_full_exact [of client url delay t0]
  by blast

theorem C4_failures_are_values_unless_escaped_witness:
  "maybe_sleep (exact_runtime example_client) 100 0 = (100, Done ())
   \<and> get (exact_runtime example_client) ''B'' 100 = (0, Done (Raises ''boom''))
   \<and> fetch_url_full (exact_runtime example_client) ''B'' 100 0 =
        (100 + 0,
         Inr [(''url'', PyStr ''B''), (''status'', PyNone), (''length'', PyInt 0),
              (''success'', PyBool False), (''error'', PyStr ''boom'')])"
proof -
  have s: "maybe_sleep (exact_runtime example_client) 100 0 = (100, Done ())"
    by (simp add: maybe_sleep_def exact_runtime_def)
  have g: "get (exact_runtime example_client) ''B'' 100 = (0, Done (Raises ''boom''))"
    by (simp add: exact_runtime_def example_client_def)
  note t = C4_failures_are_values_unless_escaped
    [of "exact_runtime example_client" "''B''" 100 0 100 0 _ "''boom''"]
  from t have "maybe_sleep (exact_runtime example_client) 100 0 = (100, Done ())
       \<and> get (exact_runtime example_client) ''B'' 100 = (0, Done (Raises ''boom'')) \<longrightarrow>
     fetch_url_full (exact_runtime example_client) ''B'' 100 0 =
        (100 + 0,
         Inr [(''url'', PyStr ''B''), (''status'', PyNone), (''length'', PyInt 0),
              (''success'', PyBool False), (''error'', PyStr ''boom'')])"
    by (rule conjunct2 [THEN conjunct2, THEN conjunct1])
  with s g show ?thesis by blast
qed

text \<open>
  A task cancelled during its request, and one cancelled during its sleep, end
  \<^verbatim>\<open>fetch_url\<close> with \<^verbatim>\<open>CancelledError\<close>, and the consumer of \<^verbatim>\<open>concurrent_http_gen\<close>
  gets it; a response with status 500 is returned as a success.
\<close>

theorem C4_escapes_counterexample:
  "fetch_url_full cancelling_runtime ''B'' 100 0 = (120, Inl ''CancelledError'')
   \<and> fetch_url_full cancelling_runtime ''C'' 200 0 = (50, Inl ''CancelledError'')
   \<and> raised (concurrent_http_gen_full cancelling_runtime [''A'', ''B'', ''C''] 0)
       = [BaseException ''CancelledError'']
   \<and> snd (fetch_url error_status_client ''A'' 0 0)
       = [(''url'', PyStr ''A''), (''status'', PyInt 500), (''length'', PyInt 4),
          (''success'', PyBool True)]"
  by (simp add: fetch_url_full_def maybe_sleep_def cancelling_runtime_def
        concurrent_http_gen_full_def spawn_full_def enumerate_eq_zip upt_rec
        fetch_url_def error_status_client_def example_response_def)

end
